theory Spec2Isabelle
  imports Main "HOL-Library.Word" "HOL-Library.Sublist"
begin

unbundle bit_operations_syntax

section \<open>The Luxtronik session engine (luxtronik/aluxtronik.py)\<close>

text \<open>
  A shallow embedding of class \<open>ALuxtronik\<close>. Every coroutine of the class is a function
  from the session state to an outcome and the state it leaves behind. An exception is
  the left injection of the outcome; the state returned with it is the state at the
  moment of the raise, so that what an aborted phase has already done stays visible.

  Python names that start with an underscore cannot be Isabelle names: \<open>_send_ints\<close>,
  \<open>_recv_int\<close>, \<open>_recv_char\<close>, \<open>_read_parameters\<close>, \<open>_read_calculations\<close> and
  \<open>_read_after_write\<close> lose the underscore, \<open>_read\<close> and \<open>_write\<close> (which would
  clash with the public \<open>read\<close> and \<open>write\<close>) are \<open>priv_read\<close> and \<open>priv_write\<close>,
  \<open>__init__\<close>, \<open>__aenter__\<close> and \<open>__aexit__\<close> are \<open>init\<close>, \<open>aenter\<close> and \<open>aexit\<close>,
  and the public \<open>write\<close>, a keyword of Isabelle, is \<open>write'\<close>.

  The environment: the controller's answer is a finite sequence of bytes followed by the
  end of the stream; a write to an open connection is accepted; whether waiting for the
  writer to close returns or raises is an argument of \<open>aexit\<close>. Calls of \<open>LOGGER\<close>
  have no effect on the session and are left out. The lock of \<open>_read_after_write\<close> is
  taken and released around one cycle; with one cycle running at a time it has no
  effect of its own.
\<close>

subsection \<open>Values, exceptions, wire bytes\<close>

type_synonym byte = "8 word"

text \<open>The Python exceptions that the code under study can raise.\<close>

datatype py_exception =
    StructError           \<comment> \<open>\<open>struct.error\<close>, from \<open>struct.pack\<close> and \<open>struct.unpack\<close>\<close>
  | IncompleteReadError   \<comment> \<open>\<open>asyncio.IncompleteReadError\<close>, from \<open>StreamReader.readexactly\<close>\<close>
  | AttributeError        \<comment> \<open>a method looked up on \<open>None\<close>\<close>
  | OSError               \<comment> \<open>\<open>asyncio.open_connection\<close> failed, or the connection was lost
                               (\<open>ConnectionResetError\<close> is an \<open>OSError\<close>)\<close>

text \<open>
  The objects that may sit in \<open>parameters.queue\<close>. \<open>bool\<close> is a subclass of \<open>int\<close>
  in Python, so \<open>isinstance(True, int)\<close> holds.
\<close>

datatype pyval = PInt int | PBool bool | PStr string | PNone

fun isinstance_int :: "pyval \<Rightarrow> bool" where
  "isinstance_int (PInt _) = True"
| "isinstance_int (PBool _) = True"
| "isinstance_int (PStr _) = False"
| "isinstance_int PNone = False"

subsection \<open>struct.pack and struct.unpack\<close>

definition be_bytes :: "32 word \<Rightarrow> byte list" where
  "be_bytes w = [ucast (drop_bit 24 w), ucast (drop_bit 16 w), ucast (drop_bit 8 w), ucast w]"

definition be_word :: "byte \<Rightarrow> byte \<Rightarrow> byte \<Rightarrow> byte \<Rightarrow> 32 word" where
  "be_word b0 b1 b2 b3 =
     push_bit 24 (ucast b0) OR push_bit 16 (ucast b1) OR push_bit 8 (ucast b2) OR ucast b3"

text \<open>
  Format \<open>i\<close> of \<open>struct.pack\<close>, big-endian: four bytes of two's complement, and
  \<open>struct.error\<close> for an integer outside the signed 32-bit range or an argument that
  is not an integer.
\<close>

definition int32 :: "int \<Rightarrow> bool" where
  "int32 v = (- (2 ^ 31) \<le> v \<and> v < 2 ^ 31)"

fun pack_i :: "pyval \<Rightarrow> py_exception + byte list" where
  "pack_i (PInt v) = (if int32 v then Inr (be_bytes (word_of_int v)) else Inl StructError)"
| "pack_i (PBool b) = Inr (be_bytes (if b then 1 else 0))"
| "pack_i (PStr _) = Inl StructError"
| "pack_i PNone = Inl StructError"

text \<open>\<open>struct.pack(">" + "i" * len(ints), *ints)\<close>\<close>

fun pack_ints :: "pyval list \<Rightarrow> py_exception + byte list" where
  "pack_ints [] = Inr []"
| "pack_ints (v # vs) =
     (case pack_i v of
        Inl e \<Rightarrow> Inl e
      | Inr b \<Rightarrow> (case pack_ints vs of Inl e \<Rightarrow> Inl e | Inr bs \<Rightarrow> Inr (b @ bs)))"

text \<open>\<open>struct.unpack(">i", data)[0]\<close>: \<open>struct.error\<close> unless the buffer has four bytes.\<close>

fun unpack_i :: "byte list \<Rightarrow> py_exception + int" where
  "unpack_i [b0, b1, b2, b3] = Inr (sint (be_word b0 b1 b2 b3))"
| "unpack_i _ = Inl StructError"

text \<open>\<open>struct.unpack(">b", data)[0]\<close>\<close>

fun unpack_b :: "byte list \<Rightarrow> py_exception + int" where
  "unpack_b [b] = Inr (sint b)"
| "unpack_b _ = Inl StructError"

subsection \<open>The session\<close>

text \<open>
  What the session does to the outside, in the order it does it: bytes handed to
  \<open>writer.write\<close> and drained, buffers returned by \<open>reader.readexactly\<close>, the sleep
  after a write phase, the two calls of the external parsers, and the closing of the
  writer.
\<close>

datatype event =
    Wrote "byte list"
  | Received "byte list"
  | Slept nat
  | Parameters_parse "int list"
  | Calculations_parse "int list"
  | Closed

text \<open>
  \<open>reader\<close> is \<open>self._reader\<close>: \<open>None\<close>, or the stream reader with the bytes that are
  still to arrive before the end of the stream. \<open>writer\<close> is \<open>self._writer\<close>: \<open>None\<close>
  or the stream writer. \<open>queue\<close> is \<open>self.parameters.queue\<close> as \<open>items()\<close> lists it
  (a dict iterates in insertion order); a new session has nothing queued. The host, the
  port and the \<open>safe\<close> flag are handed on to the connection, the log and
  \<open>Parameters\<close> and decide nothing here; they have no field.
\<close>

record ALuxtronik =
  reader :: "byte list option"
  writer :: "unit option"
  queue :: "(pyval \<times> pyval) list"
  trace :: "event list"

type_synonym 'a result = "(py_exception + 'a) \<times> ALuxtronik"

definition WAIT_TIME_AFTER_PARAMETER_WRITE :: nat where
  "WAIT_TIME_AFTER_PARAMETER_WRITE = 1"

definition init :: ALuxtronik where
  "init = \<lparr>reader = None, writer = None, queue = [], trace = []\<rparr>"

text \<open>
  \<open>__aenter__\<close>. The argument is what \<open>asyncio.open_connection\<close> does: it raises, or
  it gives a connection on which the given bytes will arrive.
\<close>

definition aenter :: "py_exception + byte list \<Rightarrow> ALuxtronik \<Rightarrow> unit result" where
  "aenter conn s =
     (case conn of
        Inl e \<Rightarrow> (Inl e, s)
      | Inr incoming \<Rightarrow> (Inr (), s\<lparr>reader := Some incoming, writer := Some ()\<rparr>))"

text \<open>
  \<open>__aexit__\<close>. The first argument is what \<open>await self._writer.wait_closed()\<close>
  does: \<open>None\<close> when it returns, the exception when it raises (it raises the error
  with which the connection was lost). The two assignments that clear the handles come
  after it, with no \<open>try\<close> around the wait: an exception leaves \<open>__aexit__\<close> with
  both handles still set. Without a writer nothing is closed and nothing is awaited.
\<close>

definition aexit :: "py_exception option \<Rightarrow> ALuxtronik \<Rightarrow> unit result" where
  "aexit closing s =
     (case writer s of
        Some _ \<Rightarrow>
          (let s1 = s\<lparr>trace := trace s @ [Closed]\<rparr>
           in case closing of
                Some e \<Rightarrow> (Inl e, s1)
              | None \<Rightarrow> (Inr (), s1\<lparr>reader := None, writer := None\<rparr>))
      | None \<Rightarrow> (Inr (), s\<lparr>reader := None, writer := None\<rparr>))"

subsection \<open>Low-level helpers\<close>

text \<open>
  \<open>StreamReader.readexactly(n)\<close> on a stream that ends: the next \<open>n\<close> bytes, or
  \<open>IncompleteReadError\<close> when fewer are left, and then the bytes that were left are
  taken out of the buffer.
\<close>

definition readexactly :: "nat \<Rightarrow> byte list \<Rightarrow> (py_exception + byte list) \<times> byte list" where
  "readexactly n buf =
     (if length buf < n then (Inl IncompleteReadError, [])
      else (Inr (take n buf), drop n buf))"

definition send_ints :: "pyval list \<Rightarrow> ALuxtronik \<Rightarrow> unit result" where
  "send_ints ints s =
     (case pack_ints ints of
        Inl e \<Rightarrow> (Inl e, s)
      | Inr data \<Rightarrow>
          (case writer s of
             None \<Rightarrow> (Inl AttributeError, s)
           | Some _ \<Rightarrow> (Inr (), s\<lparr>trace := trace s @ [Wrote data]\<rparr>)))"

definition recv_int :: "ALuxtronik \<Rightarrow> int result" where
  "recv_int s =
     (case reader s of
        None \<Rightarrow> (Inl AttributeError, s)
      | Some buf \<Rightarrow>
          (case readexactly 4 buf of
             (Inl e, buf') \<Rightarrow> (Inl e, s\<lparr>reader := Some buf'\<rparr>)
           | (Inr data, buf') \<Rightarrow>
               (let s' = s\<lparr>reader := Some buf', trace := trace s @ [Received data]\<rparr>
                in case unpack_i data of
                     Inl e \<Rightarrow> (Inl e, s')
                   | Inr value \<Rightarrow> (Inr value, s'))))"

definition recv_char :: "ALuxtronik \<Rightarrow> int result" where
  "recv_char s =
     (case reader s of
        None \<Rightarrow> (Inl AttributeError, s)
      | Some buf \<Rightarrow>
          (case readexactly 1 buf of
             (Inl e, buf') \<Rightarrow> (Inl e, s\<lparr>reader := Some buf'\<rparr>)
           | (Inr data, buf') \<Rightarrow>
               (let s' = s\<lparr>reader := Some buf', trace := trace s @ [Received data]\<rparr>
                in case unpack_b data of
                     Inl e \<Rightarrow> (Inl e, s')
                   | Inr value \<Rightarrow> (Inr value, s'))))"

subsection \<open>The write phase\<close>

text \<open>
  The body of the \<open>for\<close> loop of \<open>_write\<close>, over the items still to visit. The loop
  reads the queue and does not change it.
\<close>

fun write_loop :: "(pyval \<times> pyval) list \<Rightarrow> ALuxtronik \<Rightarrow> unit result" where
  "write_loop [] s = (Inr (), s)"
| "write_loop ((index, value) # items) s =
     (if \<not> isinstance_int index \<or> \<not> isinstance_int value then write_loop items s
      else
        (case send_ints [PInt 3002, index, value] s of
           (Inl e, s1) \<Rightarrow> (Inl e, s1)
         | (Inr _, s1) \<Rightarrow>
             (case recv_int s1 of
                (Inl e, s2) \<Rightarrow> (Inl e, s2)
              | (Inr cmd, s2) \<Rightarrow>
                  (case recv_int s2 of
                     (Inl e, s3) \<Rightarrow> (Inl e, s3)
                   | (Inr val, s3) \<Rightarrow> write_loop items s3))))"

definition priv_write :: "ALuxtronik \<Rightarrow> unit result" where
  "priv_write s =
     (case write_loop (queue s) s of
        (Inl e, s') \<Rightarrow> (Inl e, s')
      | (Inr _, s') \<Rightarrow> (Inr (), s'\<lparr>queue := []\<rparr>))"

subsection \<open>The read phase\<close>

text \<open>
  The \<open>for _ in range(0, length)\<close> loop of the two readers, with the iterations that
  are left and the list \<open>data\<close>. Only \<open>struct.error\<close> is caught; the loop then goes on
  with the next iteration. Any other exception leaves the loop and the reader.
\<close>

fun read_loop :: "nat \<Rightarrow> int list \<Rightarrow> ALuxtronik \<Rightarrow> (int list) result" where
  "read_loop 0 data s = (Inr data, s)"
| "read_loop (Suc n) data s =
     (case recv_int s of
        (Inr val, s') \<Rightarrow> read_loop n (data @ [val]) s'
      | (Inl StructError, s') \<Rightarrow> read_loop n data s'
      | (Inl e, s') \<Rightarrow> (Inl e, s'))"

text \<open>
  \<open>range(0, length)\<close> has \<open>length\<close> elements, and none when \<open>length\<close> is negative:
  that is \<open>nat len\<close> for the local variable \<open>length\<close>, here \<open>len\<close>.
\<close>

text \<open>
  Modelled from the spec: \<open>Parameters.parse\<close> and \<open>Calculations.parse\<close> (modules
  \<open>luxtronik.parameters\<close> and \<open>luxtronik.calculations\<close>, not part of the source at
  hand) are sinks that take the raw values and return nothing; the two readers record
  the call and its argument as the events \<open>Parameters_parse\<close> and
  \<open>Calculations_parse\<close>.
\<close>

definition read_parameters :: "ALuxtronik \<Rightarrow> unit result" where
  "read_parameters s =
     (case send_ints [PInt 3003, PInt 0] s of
        (Inl e, s1) \<Rightarrow> (Inl e, s1)
      | (Inr _, s1) \<Rightarrow>
          (case recv_int s1 of
             (Inl e, s2) \<Rightarrow> (Inl e, s2)
           | (Inr cmd, s2) \<Rightarrow>
               (case recv_int s2 of
                  (Inl e, s3) \<Rightarrow> (Inl e, s3)
                | (Inr len, s3) \<Rightarrow>
                    (case read_loop (nat len) [] s3 of
                       (Inl e, s4) \<Rightarrow> (Inl e, s4)
                     | (Inr data, s4) \<Rightarrow>
                         (Inr (), s4\<lparr>trace := trace s4 @ [Parameters_parse data]\<rparr>)))))"

definition read_calculations :: "ALuxtronik \<Rightarrow> unit result" where
  "read_calculations s =
     (case send_ints [PInt 3004, PInt 0] s of
        (Inl e, s1) \<Rightarrow> (Inl e, s1)
      | (Inr _, s1) \<Rightarrow>
          (case recv_int s1 of
             (Inl e, s2) \<Rightarrow> (Inl e, s2)
           | (Inr cmd, s2) \<Rightarrow>
               (case recv_int s2 of
                  (Inl e, s3) \<Rightarrow> (Inl e, s3)
                | (Inr stat, s3) \<Rightarrow>
                    (case recv_int s3 of
                       (Inl e, s4) \<Rightarrow> (Inl e, s4)
                     | (Inr len, s4) \<Rightarrow>
                         (case read_loop (nat len) [] s4 of
                            (Inl e, s5) \<Rightarrow> (Inl e, s5)
                          | (Inr data, s5) \<Rightarrow>
                              (Inr (), s5\<lparr>trace := trace s5 @ [Calculations_parse data]\<rparr>))))))"

definition priv_read :: "ALuxtronik \<Rightarrow> unit result" where
  "priv_read s =
     (case read_parameters s of
        (Inl e, s1) \<Rightarrow> (Inl e, s1)
      | (Inr _, s1) \<Rightarrow> read_calculations s1)"

subsection \<open>The cycle\<close>

definition read_after_write :: "bool \<Rightarrow> ALuxtronik \<Rightarrow> unit result" where
  "read_after_write wr s =
     (if wr then
        (case priv_write s of
           (Inl e, s1) \<Rightarrow> (Inl e, s1)
         | (Inr _, s1) \<Rightarrow>
             priv_read (s1\<lparr>trace := trace s1 @ [Slept WAIT_TIME_AFTER_PARAMETER_WRITE]\<rparr>))
      else priv_read s)"

definition read :: "ALuxtronik \<Rightarrow> unit result" where
  "read s = read_after_write False s"

definition write' :: "ALuxtronik \<Rightarrow> unit result" where
  "write' s = read_after_write True s"

subsection \<open>Observing a session\<close>

text \<open>
  The entries that the loop of \<open>_write\<close> passes over: the condition of its \<open>if\<close>.
\<close>

fun skipped :: "pyval \<times> pyval \<Rightarrow> bool" where
  "skipped (index, value) = (\<not> isinstance_int index \<or> \<not> isinstance_int value)"

text \<open>
  The events of a trace other than the buffers received: frames written, the sleep, the
  calls of the parsers and the closing, in their order.
\<close>

fun received :: "event \<Rightarrow> bool" where
  "received (Received _) = True"
| "received _ = False"

definition steps :: "event list \<Rightarrow> event list" where
  "steps es = filter (\<lambda>e. \<not> received e) es"

text \<open>The command of a written frame: its first big-endian integer.\<close>

fun command_of :: "event \<Rightarrow> int option" where
  "command_of (Wrote data) = (case unpack_i (take 4 data) of Inr c \<Rightarrow> Some c | Inl _ \<Rightarrow> None)"
| "command_of _ = None"

text \<open>The frame that \<open>_write\<close> packs for an entry of the queue.\<close>

fun frame_of :: "pyval \<times> pyval \<Rightarrow> py_exception + byte list" where
  "frame_of (index, value) = pack_ints [PInt 3002, index, value]"

section \<open>The codec\<close>

lemma be_word_be_bytes:
  "be_word (ucast (drop_bit 24 w)) (ucast (drop_bit 16 w)) (ucast (drop_bit 8 w)) (ucast w) = w"
  unfolding be_word_def
proof (rule bit_word_eqI)
  fix n :: nat
  assume n: "n < LENGTH(32)"
  consider "n < 8" | "8 \<le> n" "n < 16" | "16 \<le> n" "n < 24" | "24 \<le> n"
    by linarith
  then show "bit (push_bit 24 (ucast (ucast (drop_bit 24 w) :: byte)) OR
          push_bit 16 (ucast (ucast (drop_bit 16 w) :: byte)) OR
          push_bit 8 (ucast (ucast (drop_bit 8 w) :: byte)) OR
          ucast (ucast w :: byte) :: 32 word) n = bit w n"
    using n by cases (auto simp add: bit_simps)
qed

lemma unpack_be_bytes: "unpack_i (be_bytes w) = Inr (sint w)"
  by (simp add: be_bytes_def be_word_be_bytes)

lemma sint_word_of_int32: "int32 v \<Longrightarrow> sint (word_of_int v :: 32 word) = v"
  by (simp add: int32_def sint_sbintrunc' signed_take_bit_int_eq_self_iff)

lemma length_be_bytes: "length (be_bytes w) = 4"
  by (simp add: be_bytes_def)

lemma length_pack_i: "pack_i v = Inr b \<Longrightarrow> length b = 4"
  by (cases v) (auto simp add: length_be_bytes split: if_splits)

lemma length_pack_ints: "pack_ints vs = Inr buf \<Longrightarrow> length buf = 4 * length vs"
proof (induction vs arbitrary: buf)
  case Nil
  then show ?case by simp
next
  case (Cons v vs)
  then show ?case
    by (auto simp add: length_pack_i split: sum.splits)
qed

lemma pack_ints_int32:
  "list_all int32 vs \<Longrightarrow> pack_ints (map PInt vs) = Inr (concat (map (\<lambda>v. be_bytes (word_of_int v)) vs))"
  by (induction vs) simp_all

section \<open>The helpers on an open and on a closed session\<close>

lemma recv_int_be_bytes:
  "reader s = Some (be_bytes w @ rest) \<Longrightarrow>
   recv_int s = (Inr (sint w), s\<lparr>reader := Some rest, trace := trace s @ [Received (be_bytes w)]\<rparr>)"
  using unpack_be_bytes [of w]
  by (simp add: recv_int_def readexactly_def length_be_bytes)

lemma recv_int_short:
  "reader s = Some buf \<Longrightarrow> length buf < 4 \<Longrightarrow>
   recv_int s = (Inl IncompleteReadError, s\<lparr>reader := Some []\<rparr>)"
  by (simp add: recv_int_def readexactly_def)

lemma recv_int_closed:
  "reader s = None \<Longrightarrow> recv_int s = (Inl AttributeError, s)"
  by (simp add: recv_int_def)

lemma send_ints_open:
  "writer s = Some u \<Longrightarrow> pack_ints xs = Inr d \<Longrightarrow>
   send_ints xs s = (Inr (), s\<lparr>trace := trace s @ [Wrote d]\<rparr>)"
  by (simp add: send_ints_def)

lemma send_ints_closed:
  "writer s = None \<Longrightarrow>
   send_ints xs s = (Inl (case pack_ints xs of Inl e \<Rightarrow> e | Inr _ \<Rightarrow> AttributeError), s)"
  by (simp add: send_ints_def split: sum.splits)

lemma read_loop_values:
  "reader s = Some (concat (map be_bytes ws) @ rest) \<Longrightarrow>
   read_loop (length ws) data s =
     (Inr (data @ map sint ws),
      s\<lparr>reader := Some rest, trace := trace s @ map (\<lambda>w. Received (be_bytes w)) ws\<rparr>)"
proof (induction ws arbitrary: data s)
  case Nil
  then show ?case by simp
next
  case (Cons w ws)
  let ?s' = "s\<lparr>reader := Some (concat (map be_bytes ws) @ rest),
                trace := trace s @ [Received (be_bytes w)]\<rparr>"
  from Cons.prems have "recv_int s = (Inr (sint w), ?s')"
    by (simp add: recv_int_be_bytes)
  moreover have "reader ?s' = Some (concat (map be_bytes ws) @ rest)"
    by simp
  ultimately show ?case
    using Cons.IH [of ?s' "data @ [sint w]"] by simp
qed

section \<open>One array read, complete and cut short\<close>

lemma pack_3003: "pack_ints [PInt 3003, PInt 0] = Inr (be_bytes 3003 @ be_bytes 0)"
  by (simp add: int32_def)

lemma pack_3004: "pack_ints [PInt 3004, PInt 0] = Inr (be_bytes 3004 @ be_bytes 0)"
  by (simp add: int32_def)

lemma read_loop_short:
  "reader s = Some (concat (map be_bytes ws) @ rest) \<Longrightarrow> length rest < 4 \<Longrightarrow> length ws < n \<Longrightarrow>
   read_loop n data s =
     (Inl IncompleteReadError,
      s\<lparr>reader := Some [], trace := trace s @ map (\<lambda>w. Received (be_bytes w)) ws\<rparr>)"
proof (induction ws arbitrary: n data s)
  case Nil
  then obtain m where n: "n = Suc m"
    by (cases n) auto
  from Nil have "recv_int s = (Inl IncompleteReadError, s\<lparr>reader := Some []\<rparr>)"
    by (simp add: recv_int_short)
  then show ?case
    by (simp add: n)
next
  case (Cons w ws)
  then obtain m where n: "n = Suc m" and m: "length ws < m"
    by (cases n) auto
  let ?s' = "s\<lparr>reader := Some (concat (map be_bytes ws) @ rest),
                trace := trace s @ [Received (be_bytes w)]\<rparr>"
  from Cons.prems have "recv_int s = (Inr (sint w), ?s')"
    by (simp add: recv_int_be_bytes)
  moreover have "reader ?s' = Some (concat (map be_bytes ws) @ rest)"
    by simp
  ultimately show ?case
    using Cons.IH [of ?s' m "data @ [sint w]"] Cons.prems(2) m by (simp add: n)
qed

lemma read_parameters_complete:
  assumes w: "writer s = Some u"
    and r: "reader s = Some (be_bytes e @ be_bytes l @ concat (map be_bytes ws) @ rest)"
    and l: "nat (sint l) = length ws"
  shows "read_parameters s =
     (Inr (), s\<lparr>reader := Some rest,
        trace := trace s @ [Wrote (be_bytes 3003 @ be_bytes 0), Received (be_bytes e),
          Received (be_bytes l)] @ map (\<lambda>w. Received (be_bytes w)) ws @
          [Parameters_parse (map sint ws)]\<rparr>)"
proof -
  let ?s1 = "s\<lparr>trace := trace s @ [Wrote (be_bytes 3003 @ be_bytes 0)]\<rparr>"
  let ?s2 = "?s1\<lparr>reader := Some (be_bytes l @ concat (map be_bytes ws) @ rest),
                trace := trace ?s1 @ [Received (be_bytes e)]\<rparr>"
  let ?s3 = "?s2\<lparr>reader := Some (concat (map be_bytes ws) @ rest),
                trace := trace ?s2 @ [Received (be_bytes l)]\<rparr>"
  have 1: "send_ints [PInt 3003, PInt 0] s = (Inr (), ?s1)"
    using w pack_3003 by (rule send_ints_open)
  have 2: "recv_int ?s1 = (Inr (sint e), ?s2)"
    using r by (simp add: recv_int_be_bytes)
  have 3: "recv_int ?s2 = (Inr (sint l), ?s3)"
    by (simp add: recv_int_be_bytes)
  have 4: "read_loop (nat (sint l)) [] ?s3 =
      (Inr ([] @ map sint ws),
       ?s3\<lparr>reader := Some rest, trace := trace ?s3 @ map (\<lambda>w. Received (be_bytes w)) ws\<rparr>)"
    unfolding l by (rule read_loop_values) simp
  show ?thesis
    by (simp only: read_parameters_def 1 2 3 4 prod.case sum.case) simp
qed

lemma read_calculations_complete:
  assumes w: "writer s = Some u"
    and r: "reader s = Some (be_bytes e @ be_bytes st @ be_bytes l @ concat (map be_bytes ws) @ rest)"
    and l: "nat (sint l) = length ws"
  shows "read_calculations s =
     (Inr (), s\<lparr>reader := Some rest,
        trace := trace s @ [Wrote (be_bytes 3004 @ be_bytes 0), Received (be_bytes e),
          Received (be_bytes st), Received (be_bytes l)] @ map (\<lambda>w. Received (be_bytes w)) ws @
          [Calculations_parse (map sint ws)]\<rparr>)"
proof -
  let ?s1 = "s\<lparr>trace := trace s @ [Wrote (be_bytes 3004 @ be_bytes 0)]\<rparr>"
  let ?s2 = "?s1\<lparr>reader := Some (be_bytes st @ be_bytes l @ concat (map be_bytes ws) @ rest),
                trace := trace ?s1 @ [Received (be_bytes e)]\<rparr>"
  let ?s3 = "?s2\<lparr>reader := Some (be_bytes l @ concat (map be_bytes ws) @ rest),
                trace := trace ?s2 @ [Received (be_bytes st)]\<rparr>"
  let ?s4 = "?s3\<lparr>reader := Some (concat (map be_bytes ws) @ rest),
                trace := trace ?s3 @ [Received (be_bytes l)]\<rparr>"
  have 1: "send_ints [PInt 3004, PInt 0] s = (Inr (), ?s1)"
    using w pack_3004 by (rule send_ints_open)
  have 2: "recv_int ?s1 = (Inr (sint e), ?s2)"
    using r by (simp add: recv_int_be_bytes)
  have 3: "recv_int ?s2 = (Inr (sint st), ?s3)"
    by (simp add: recv_int_be_bytes)
  have 4: "recv_int ?s3 = (Inr (sint l), ?s4)"
    by (simp add: recv_int_be_bytes)
  have 5: "read_loop (nat (sint l)) [] ?s4 =
      (Inr ([] @ map sint ws),
       ?s4\<lparr>reader := Some rest, trace := trace ?s4 @ map (\<lambda>w. Received (be_bytes w)) ws\<rparr>)"
    unfolding l by (rule read_loop_values) simp
  show ?thesis
    by (simp only: read_calculations_def 1 2 3 4 5 prod.case sum.case) simp
qed

lemma read_parameters_short:
  assumes w: "writer s = Some u"
    and r: "reader s = Some (be_bytes e @ be_bytes l @ concat (map be_bytes ws) @ rest)"
    and t: "length rest < 4"
    and l: "length ws < nat (sint l)"
  shows "read_parameters s =
     (Inl IncompleteReadError, s\<lparr>reader := Some [],
        trace := trace s @ [Wrote (be_bytes 3003 @ be_bytes 0), Received (be_bytes e),
          Received (be_bytes l)] @ map (\<lambda>w. Received (be_bytes w)) ws\<rparr>)"
proof -
  let ?s1 = "s\<lparr>trace := trace s @ [Wrote (be_bytes 3003 @ be_bytes 0)]\<rparr>"
  let ?s2 = "?s1\<lparr>reader := Some (be_bytes l @ concat (map be_bytes ws) @ rest),
                trace := trace ?s1 @ [Received (be_bytes e)]\<rparr>"
  let ?s3 = "?s2\<lparr>reader := Some (concat (map be_bytes ws) @ rest),
                trace := trace ?s2 @ [Received (be_bytes l)]\<rparr>"
  have 1: "send_ints [PInt 3003, PInt 0] s = (Inr (), ?s1)"
    using w pack_3003 by (rule send_ints_open)
  have 2: "recv_int ?s1 = (Inr (sint e), ?s2)"
    using r by (simp add: recv_int_be_bytes)
  have 3: "recv_int ?s2 = (Inr (sint l), ?s3)"
    by (simp add: recv_int_be_bytes)
  have 4: "read_loop (nat (sint l)) [] ?s3 =
      (Inl IncompleteReadError,
       ?s3\<lparr>reader := Some [], trace := trace ?s3 @ map (\<lambda>w. Received (be_bytes w)) ws\<rparr>)"
    using t l by (intro read_loop_short [where rest = rest]) simp_all
  show ?thesis
    by (simp only: read_parameters_def 1 2 3 4 prod.case sum.case) simp
qed

lemma read_calculations_short:
  assumes w: "writer s = Some u"
    and r: "reader s = Some (be_bytes e @ be_bytes st @ be_bytes l @ concat (map be_bytes ws) @ rest)"
    and t: "length rest < 4"
    and l: "length ws < nat (sint l)"
  shows "read_calculations s =
     (Inl IncompleteReadError, s\<lparr>reader := Some [],
        trace := trace s @ [Wrote (be_bytes 3004 @ be_bytes 0), Received (be_bytes e),
          Received (be_bytes st), Received (be_bytes l)] @ map (\<lambda>w. Received (be_bytes w)) ws\<rparr>)"
proof -
  let ?s1 = "s\<lparr>trace := trace s @ [Wrote (be_bytes 3004 @ be_bytes 0)]\<rparr>"
  let ?s2 = "?s1\<lparr>reader := Some (be_bytes st @ be_bytes l @ concat (map be_bytes ws) @ rest),
                trace := trace ?s1 @ [Received (be_bytes e)]\<rparr>"
  let ?s3 = "?s2\<lparr>reader := Some (be_bytes l @ concat (map be_bytes ws) @ rest),
                trace := trace ?s2 @ [Received (be_bytes st)]\<rparr>"
  let ?s4 = "?s3\<lparr>reader := Some (concat (map be_bytes ws) @ rest),
                trace := trace ?s3 @ [Received (be_bytes l)]\<rparr>"
  have 1: "send_ints [PInt 3004, PInt 0] s = (Inr (), ?s1)"
    using w pack_3004 by (rule send_ints_open)
  have 2: "recv_int ?s1 = (Inr (sint e), ?s2)"
    using r by (simp add: recv_int_be_bytes)
  have 3: "recv_int ?s2 = (Inr (sint st), ?s3)"
    by (simp add: recv_int_be_bytes)
  have 4: "recv_int ?s3 = (Inr (sint l), ?s4)"
    by (simp add: recv_int_be_bytes)
  have 5: "read_loop (nat (sint l)) [] ?s4 =
      (Inl IncompleteReadError,
       ?s4\<lparr>reader := Some [], trace := trace ?s4 @ map (\<lambda>w. Received (be_bytes w)) ws\<rparr>)"
    using t l by (intro read_loop_short [where rest = rest]) simp_all
  show ?thesis
    by (simp only: read_calculations_def 1 2 3 4 5 prod.case sum.case) simp
qed

lemma be_bytes_examples:
  "be_bytes 0 = [0, 0, 0, 0]"
  "be_bytes 1 = [0, 0, 0, 1]"
  "be_bytes 2 = [0, 0, 0, 2]"
  "be_bytes 5 = [0, 0, 0, 5]"
  "be_bytes 10 = [0, 0, 0, 10]"
  "be_bytes 42 = [0, 0, 0, 42]"
  "be_bytes 43 = [0, 0, 0, 43]"
  "be_bytes 99 = [0, 0, 0, 99]"
  "be_bytes 3002 = [0, 0, 11, 186]"
  "be_bytes 3003 = [0, 0, 11, 187]"
  "be_bytes 3004 = [0, 0, 11, 188]"
  "be_bytes 2147483648 = [128, 0, 0, 0]"
  "be_bytes 4294967294 = [255, 255, 255, 254]"
  "be_bytes 4294967295 = [255, 255, 255, 255]"
  by (simp_all add: be_bytes_def)

section \<open>The array reader\<close>

subsection \<open>A declared length of zero\<close>

text \<open>
  Claim C8. When the declared length is 0, the array reader hands the empty sequence to
  the sink and takes no byte from the stream beyond the header fields: the echo and the
  length for the parameters, the echo, the status word and the length for the
  calculations. What follows the header stays in the stream.
\<close>

theorem read_length_zero:
  assumes "writer s = Some u"
    and "reader s = Some (be_bytes e @ be_bytes 0 @ rest)"
    and "writer t = Some u'"
    and "reader t = Some (be_bytes e' @ be_bytes st @ be_bytes 0 @ rest')"
  shows "read_parameters s =
       (Inr (), s\<lparr>reader := Some rest,
          trace := trace s @ [Wrote (be_bytes 3003 @ be_bytes 0), Received (be_bytes e),
            Received (be_bytes 0), Parameters_parse []]\<rparr>) \<and>
     read_calculations t =
       (Inr (), t\<lparr>reader := Some rest',
          trace := trace t @ [Wrote (be_bytes 3004 @ be_bytes 0), Received (be_bytes e'),
            Received (be_bytes st), Received (be_bytes 0), Calculations_parse []]\<rparr>)"
  using read_parameters_complete [of s u e 0 "[]" rest]
    read_calculations_complete [of t u' e' st 0 "[]" rest'] assms
  by simp

theorem read_length_zero_witness:
  "read_parameters (init\<lparr>reader := Some [0, 0, 11, 187, 0, 0, 0, 0, 7], writer := Some ()\<rparr>) =
     (Inr (), init\<lparr>reader := Some [7], writer := Some (),
        trace := [Wrote [0, 0, 11, 187, 0, 0, 0, 0], Received [0, 0, 11, 187],
          Received [0, 0, 0, 0], Parameters_parse []]\<rparr>) \<and>
   read_calculations (init\<lparr>reader := Some [0, 0, 11, 188, 0, 0, 0, 5, 0, 0, 0, 0, 7],
       writer := Some ()\<rparr>) =
     (Inr (), init\<lparr>reader := Some [7], writer := Some (),
        trace := [Wrote [0, 0, 11, 188, 0, 0, 0, 0], Received [0, 0, 11, 188],
          Received [0, 0, 0, 5], Received [0, 0, 0, 0], Calculations_parse []]\<rparr>)"
  using read_length_zero [of "init\<lparr>reader := Some [0, 0, 11, 187, 0, 0, 0, 0, 7], writer := Some ()\<rparr>"
      "()" 3003 "[7]"
      "init\<lparr>reader := Some [0, 0, 11, 188, 0, 0, 0, 5, 0, 0, 0, 0, 7], writer := Some ()\<rparr>"
      "()" 3004 5 "[7]"]
  by (simp add: be_bytes_examples init_def)

subsection \<open>A negative declared length\<close>

text \<open>
  Claim C2 says that a negative declared length raises a \<open>ProtocolError\<close>. The code
  has no check of the length: \<open>range(0, length)\<close> is empty for a negative \<open>length\<close>,
  and the reader returns normally. With the length \<open>-1\<close> on the wire, the parameters
  reader raises nothing and calls the parser with the empty list.
\<close>

theorem negative_length_counterexample:
  "read_parameters (init\<lparr>reader := Some [0, 0, 11, 187, 255, 255, 255, 255], writer := Some ()\<rparr>) =
     (Inr (), init\<lparr>reader := Some [], writer := Some (),
        trace := [Wrote [0, 0, 11, 187, 0, 0, 0, 0], Received [0, 0, 11, 187],
          Received [255, 255, 255, 255], Parameters_parse []]\<rparr>)"
  using read_parameters_complete [of
      "init\<lparr>reader := Some [0, 0, 11, 187, 255, 255, 255, 255], writer := Some ()\<rparr>"
      "()" 3003 4294967295 "[]" "[]"]
  by (simp add: be_bytes_examples init_def)

text \<open>
  Claim C2, amended. When the declared length is negative, the array reader raises
  nothing: it reads no value, takes no byte beyond the header fields, and hands the empty
  sequence to the sink.
\<close>

theorem read_negative_length:
  assumes "writer s = Some u"
    and "reader s = Some (be_bytes e @ be_bytes l @ rest)"
    and "sint l < 0"
    and "writer t = Some u'"
    and "reader t = Some (be_bytes e' @ be_bytes st @ be_bytes l' @ rest')"
    and "sint l' < 0"
  shows "read_parameters s =
       (Inr (), s\<lparr>reader := Some rest,
          trace := trace s @ [Wrote (be_bytes 3003 @ be_bytes 0), Received (be_bytes e),
            Received (be_bytes l), Parameters_parse []]\<rparr>) \<and>
     read_calculations t =
       (Inr (), t\<lparr>reader := Some rest',
          trace := trace t @ [Wrote (be_bytes 3004 @ be_bytes 0), Received (be_bytes e'),
            Received (be_bytes st), Received (be_bytes l'), Calculations_parse []]\<rparr>)"
  using read_parameters_complete [of s u e l "[]" rest]
    read_calculations_complete [of t u' e' st l' "[]" rest'] assms
  by simp

theorem read_negative_length_witness:
  "read_parameters (init\<lparr>reader := Some [0, 0, 11, 187, 255, 255, 255, 254, 7], writer := Some ()\<rparr>) =
     (Inr (), init\<lparr>reader := Some [7], writer := Some (),
        trace := [Wrote [0, 0, 11, 187, 0, 0, 0, 0], Received [0, 0, 11, 187],
          Received [255, 255, 255, 254], Parameters_parse []]\<rparr>) \<and>
   read_calculations (init\<lparr>reader := Some [0, 0, 11, 188, 0, 0, 0, 5, 128, 0, 0, 0, 7],
       writer := Some ()\<rparr>) =
     (Inr (), init\<lparr>reader := Some [7], writer := Some (),
        trace := [Wrote [0, 0, 11, 188, 0, 0, 0, 0], Received [0, 0, 11, 188],
          Received [0, 0, 0, 5], Received [128, 0, 0, 0], Calculations_parse []]\<rparr>)"
  using read_negative_length [of
      "init\<lparr>reader := Some [0, 0, 11, 187, 255, 255, 255, 254, 7], writer := Some ()\<rparr>"
      "()" 3003 4294967294 "[7]"
      "init\<lparr>reader := Some [0, 0, 11, 188, 0, 0, 0, 5, 128, 0, 0, 0, 7], writer := Some ()\<rparr>"
      "()" 3004 5 2147483648 "[7]"]
  by (simp add: be_bytes_examples init_def)

subsection \<open>A stream that ends before the declared length\<close>

text \<open>
  Claim C1 says that when fewer than the declared \<open>L\<close> integers arrive before the
  stream ends, the array reader returns the shorter sequence and raises nothing. The
  reader catches \<open>struct.error\<close>, but \<open>readexactly\<close> raises
  \<open>IncompleteReadError\<close> on a stream that ends early, which the \<open>except\<close> clause
  does not catch: the exception leaves the reader, and the parser is not called. The
  values read before the end are lost with it.
\<close>

theorem read_short_stream_raises:
  assumes "writer s = Some u"
    and "reader s = Some (be_bytes e @ be_bytes l @ concat (map be_bytes ws) @ rest)"
    and "length rest < 4" and "length ws < nat (sint l)"
    and "writer t = Some u'"
    and "reader t = Some (be_bytes e' @ be_bytes st @ be_bytes l' @ concat (map be_bytes ws') @ rest')"
    and "length rest' < 4" and "length ws' < nat (sint l')"
  shows "read_parameters s =
       (Inl IncompleteReadError, s\<lparr>reader := Some [],
          trace := trace s @ [Wrote (be_bytes 3003 @ be_bytes 0), Received (be_bytes e),
            Received (be_bytes l)] @ map (\<lambda>w. Received (be_bytes w)) ws\<rparr>) \<and>
     read_calculations t =
       (Inl IncompleteReadError, t\<lparr>reader := Some [],
          trace := trace t @ [Wrote (be_bytes 3004 @ be_bytes 0), Received (be_bytes e'),
            Received (be_bytes st), Received (be_bytes l')] @
            map (\<lambda>w. Received (be_bytes w)) ws'\<rparr>)"
  using read_parameters_short [OF assms(1-4)] read_calculations_short [OF assms(5-8)]
  by simp

theorem read_short_stream_raises_witness:
  "read_parameters (init\<lparr>reader := Some [0, 0, 11, 187, 0, 0, 0, 2, 0, 0, 0, 42],
       writer := Some ()\<rparr>) =
     (Inl IncompleteReadError, init\<lparr>reader := Some [], writer := Some (),
        trace := [Wrote [0, 0, 11, 187, 0, 0, 0, 0], Received [0, 0, 11, 187],
          Received [0, 0, 0, 2], Received [0, 0, 0, 42]]\<rparr>) \<and>
   read_calculations (init\<lparr>reader := Some [0, 0, 11, 188, 0, 0, 0, 0, 0, 0, 0, 1, 9, 9],
       writer := Some ()\<rparr>) =
     (Inl IncompleteReadError, init\<lparr>reader := Some [], writer := Some (),
        trace := [Wrote [0, 0, 11, 188, 0, 0, 0, 0], Received [0, 0, 11, 188],
          Received [0, 0, 0, 0], Received [0, 0, 0, 1]]\<rparr>)"
  using read_short_stream_raises [of
      "init\<lparr>reader := Some [0, 0, 11, 187, 0, 0, 0, 2, 0, 0, 0, 42], writer := Some ()\<rparr>"
      "()" 3003 2 "[42]" "[]"
      "init\<lparr>reader := Some [0, 0, 11, 188, 0, 0, 0, 0, 0, 0, 0, 1, 9, 9], writer := Some ()\<rparr>"
      "()" 3004 0 1 "[]" "[9, 9]"]
  by (simp add: be_bytes_examples init_def)

section \<open>The write phase and the queue\<close>

lemma queue_recv_int: "recv_int s = (r, s') \<Longrightarrow> queue s' = queue s"
  by (auto simp add: recv_int_def readexactly_def Let_def split: option.splits sum.splits if_splits)

lemma queue_send_ints: "send_ints xs s = (r, s') \<Longrightarrow> queue s' = queue s"
  by (auto simp add: send_ints_def split: option.splits sum.splits)

lemma queue_write_loop: "write_loop q s = (r, s') \<Longrightarrow> queue s' = queue s"
proof (induction q arbitrary: s)
  case Nil
  then show ?case by simp
next
  case (Cons entry items)
  obtain index "value" where entry: "entry = (index, value)"
    by (cases entry)
  show ?case
  proof (cases "\<not> isinstance_int index \<or> \<not> isinstance_int value")
    case True
    with Cons entry show ?thesis by simp
  next
    case False
    with Cons.prems entry show ?thesis
      by (auto split: prod.splits sum.splits
          dest!: queue_send_ints queue_recv_int Cons.IH)
  qed
qed

lemma queue_priv_write:
  "queue (snd (priv_write s)) = (case fst (priv_write s) of Inl _ \<Rightarrow> queue s | Inr _ \<Rightarrow> [])"
proof (cases "write_loop (queue s) s")
  case (Pair r s')
  then show ?thesis
    using queue_write_loop [OF Pair] by (cases r) (simp_all add: priv_write_def)
qed

lemma write_loop_skipped:
  "skipped entry \<Longrightarrow> write_loop (pre @ entry # post) s = write_loop (pre @ post) s"
proof (induction pre arbitrary: s)
  case Nil
  then show ?case by (cases entry) simp
next
  case (Cons a pre)
  obtain index "value" where a: "a = (index, value)"
    by (cases a)
  from Cons show ?case
    by (simp add: a split: prod.splits sum.splits)
qed

lemma write_loop_all_skipped:
  "list_all skipped q \<Longrightarrow> write_loop q s = (Inr (), s)"
  by (induction q) auto

lemma pack_3002:
  "int32 i \<Longrightarrow> int32 v \<Longrightarrow>
   pack_ints [PInt 3002, PInt i, PInt v] =
     Inr (be_bytes 3002 @ be_bytes (word_of_int i) @ be_bytes (word_of_int v))"
  by (simp add: int32_def)

text \<open>The events of one entry of the queue that is written and answered.\<close>

lemma write_loop_answered:
  assumes "length rs = length ivs"
    and "list_all (\<lambda>(i, v). int32 i \<and> int32 v) ivs"
    and "writer s = Some u"
    and "reader s = Some (concat (map (\<lambda>(c, x). be_bytes c @ be_bytes x) rs) @ rest)"
  shows "write_loop (map (\<lambda>(i, v). (PInt i, PInt v)) ivs) s =
     (Inr (), s\<lparr>reader := Some rest,
        trace := trace s @ concat (map (\<lambda>((i, v), (c, x)).
          [Wrote (be_bytes 3002 @ be_bytes (word_of_int i) @ be_bytes (word_of_int v)),
           Received (be_bytes c), Received (be_bytes x)]) (zip ivs rs))\<rparr>)"
  using assms
proof (induction rs ivs arbitrary: s rule: list_induct2)
  case Nil
  then show ?case by simp
next
  case (Cons r rs iv ivs)
  obtain c x where r: "r = (c, x)"
    by (cases r)
  obtain i v where iv: "iv = (i, v)"
    by (cases iv)
  let ?tail = "concat (map (\<lambda>(c, x). be_bytes c @ be_bytes x) rs) @ rest"
  let ?f = "be_bytes 3002 @ be_bytes (word_of_int i) @ be_bytes (word_of_int v)"
  let ?s1 = "s\<lparr>trace := trace s @ [Wrote ?f]\<rparr>"
  let ?s2 = "?s1\<lparr>reader := Some (be_bytes x @ ?tail),
                trace := trace ?s1 @ [Received (be_bytes c)]\<rparr>"
  let ?s3 = "?s2\<lparr>reader := Some ?tail, trace := trace ?s2 @ [Received (be_bytes x)]\<rparr>"
  from Cons.prems iv have range: "int32 i" "int32 v" and rest: "list_all (\<lambda>(i, v). int32 i \<and> int32 v) ivs"
    by simp_all
  have 1: "send_ints [PInt 3002, PInt i, PInt v] s = (Inr (), ?s1)"
    using Cons.prems(2) pack_3002 [OF range] by (rule send_ints_open)
  have 2: "recv_int ?s1 = (Inr (sint c), ?s2)"
    using Cons.prems(3) by (simp add: recv_int_be_bytes r)
  have 3: "recv_int ?s2 = (Inr (sint x), ?s3)"
    by (simp add: recv_int_be_bytes)
  have 4: "write_loop (map (\<lambda>(i, v). (PInt i, PInt v)) ivs) ?s3 =
     (Inr (), ?s3\<lparr>reader := Some rest,
        trace := trace ?s3 @ concat (map (\<lambda>((i, v), (c, x)).
          [Wrote (be_bytes 3002 @ be_bytes (word_of_int i) @ be_bytes (word_of_int v)),
           Received (be_bytes c), Received (be_bytes x)]) (zip ivs rs))\<rparr>)"
    using Cons.prems(2) by (intro Cons.IH rest) simp_all
  have "write_loop (map (\<lambda>(i, v). (PInt i, PInt v)) (iv # ivs)) s =
      write_loop (map (\<lambda>(i, v). (PInt i, PInt v)) ivs) ?s3"
    by (simp only: iv list.map prod.case write_loop.simps isinstance_int.simps 1 2 3 sum.case
        simp_thms if_False)
  then show ?case
    by (simp only: 4) (simp add: iv r)
qed

lemma send_ints_queue_update:
  "send_ints xs (s\<lparr>queue := q\<rparr>) =
     (fst (send_ints xs s), (snd (send_ints xs s))\<lparr>queue := q\<rparr>)"
  by (simp add: send_ints_def split: option.splits sum.splits)

lemma recv_int_queue_update:
  "recv_int (s\<lparr>queue := q\<rparr>) = (fst (recv_int s), (snd (recv_int s))\<lparr>queue := q\<rparr>)"
  by (simp add: recv_int_def readexactly_def Let_def split: option.splits sum.splits)

lemma write_loop_queue_update:
  "write_loop items (s\<lparr>queue := q\<rparr>) =
     (fst (write_loop items s), (snd (write_loop items s))\<lparr>queue := q\<rparr>)"
proof (induction items arbitrary: s)
  case Nil
  then show ?case by simp
next
  case (Cons entry items)
  obtain index "value" where entry: "entry = (index, value)"
    by (cases entry)
  show ?case
    by (simp add: entry Cons.IH send_ints_queue_update recv_int_queue_update case_prod_beta
        split: sum.splits)
qed

lemma priv_write_queue:
  "priv_write (s\<lparr>queue := q\<rparr>) =
     (case write_loop q s of
        (Inl e, s') \<Rightarrow> (Inl e, s'\<lparr>queue := q\<rparr>)
      | (Inr _, s') \<Rightarrow> (Inr (), s'\<lparr>queue := []\<rparr>))"
  by (simp add: priv_write_def write_loop_queue_update case_prod_beta split: sum.splits)

subsection \<open>One frame per entry\<close>

text \<open>
  Claim C3 speaks of every queue of well-formed integer entries. The test of \<open>_write\<close>
  is \<open>isinstance(_, int)\<close>, and a Python integer need not fit the four bytes of the
  wire: for the entry \<open>(1, 2 ** 31)\<close> \<open>struct.pack\<close> raises \<open>struct.error\<close>, no
  frame is sent for the entry and the queue is left as it was.
\<close>

theorem write_out_of_range_counterexample:
  "priv_write (init\<lparr>reader := Some [0, 0, 11, 186, 0, 0, 0, 0], writer := Some (),
       queue := [(PInt 1, PInt 2147483648)]\<rparr>) =
     (Inl StructError, init\<lparr>reader := Some [0, 0, 11, 186, 0, 0, 0, 0], writer := Some (),
        queue := [(PInt 1, PInt 2147483648)]\<rparr>)"
  by (simp add: priv_write_def send_ints_def int32_def init_def)

text \<open>
  Claim C3, amended. For every queue whose entries are integers of the signed 32-bit
  range, on an open session to which the controller answers every frame with two
  integers, one write phase sends exactly one \<open>(3002, index, value)\<close> frame per entry,
  in the order of the queue, reads back exactly two integers after each frame, and
  leaves the queue empty; what the controller sent beyond the answers stays in the
  stream.
\<close>

theorem write_phase_frames:
  assumes "queue s = map (\<lambda>(i, v). (PInt i, PInt v)) ivs"
    and "list_all (\<lambda>(i, v). int32 i \<and> int32 v) ivs"
    and "writer s = Some u"
    and "length rs = length ivs"
    and "reader s = Some (concat (map (\<lambda>(c, x). be_bytes c @ be_bytes x) rs) @ rest)"
  shows "priv_write s =
     (Inr (), s\<lparr>reader := Some rest, queue := [],
        trace := trace s @ concat (map (\<lambda>((i, v), (c, x)).
          [Wrote (be_bytes 3002 @ be_bytes (word_of_int i) @ be_bytes (word_of_int v)),
           Received (be_bytes c), Received (be_bytes x)]) (zip ivs rs))\<rparr>)"
  using write_loop_answered [OF assms(4) assms(2) assms(3) assms(5)] assms(1)
  by (simp add: priv_write_def)

theorem write_phase_frames_witness:
  "priv_write (init\<lparr>reader := Some [0, 0, 11, 186, 0, 0, 0, 10, 0, 0, 11, 186, 0, 0, 0, 43, 7],
       writer := Some (), queue := [(PInt 5, PInt 10), (PInt 2, PInt 43)]\<rparr>) =
     (Inr (), init\<lparr>reader := Some [7], writer := Some (), queue := [],
        trace := [Wrote [0, 0, 11, 186, 0, 0, 0, 5, 0, 0, 0, 10],
          Received [0, 0, 11, 186], Received [0, 0, 0, 10],
          Wrote [0, 0, 11, 186, 0, 0, 0, 2, 0, 0, 0, 43],
          Received [0, 0, 11, 186], Received [0, 0, 0, 43]]\<rparr>)"
  using write_phase_frames [of
      "init\<lparr>reader := Some [0, 0, 11, 186, 0, 0, 0, 10, 0, 0, 11, 186, 0, 0, 0, 43, 7],
         writer := Some (), queue := [(PInt 5, PInt 10), (PInt 2, PInt 43)]\<rparr>"
      "[(5, 10), (2, 43)]" "()" "[(3002, 10), (3002, 43)]" "[7]"]
  by (simp add: be_bytes_examples init_def int32_def)

subsection \<open>Entries that are not integers\<close>

text \<open>
  Claim C4 says that with an entry that is not an integer in the queue the write phase
  does not raise and the queue is cleared after it. The entry is passed over, but the
  phase can still raise on another entry, and then nothing is cleared: with the entries
  \<open>(6, None)\<close> and \<open>(5, 10)\<close> queued and the stream at its end, the frame of
  \<open>(5, 10)\<close> is sent, its read-back raises \<open>IncompleteReadError\<close>, and the queue
  still holds both entries, the one passed over included.
\<close>

theorem skipped_entry_kept_counterexample:
  "priv_write (init\<lparr>reader := Some [], writer := Some (),
       queue := [(PInt 6, PNone), (PInt 5, PInt 10)]\<rparr>) =
     (Inl IncompleteReadError, init\<lparr>reader := Some [], writer := Some (),
        queue := [(PInt 6, PNone), (PInt 5, PInt 10)],
        trace := [Wrote [0, 0, 11, 186, 0, 0, 0, 5, 0, 0, 0, 10]]\<rparr>)"
  by (simp add: priv_write_def send_ints_def recv_int_def readexactly_def int32_def init_def
      be_bytes_examples)

text \<open>
  Claim C4, amended. An entry whose index or value is not an integer is passed over: the
  write phase on a queue with such an entry has the outcome, the frames and the reads of
  the write phase on the queue without it, so the entry sends no frame and raises
  nothing of its own. When the phase returns, the queue is empty, the entry that was
  passed over included; when the send or the read-back of another entry raises, the
  queue is what it was before the phase, the entry that was passed over included. On a
  queue of nothing but such entries the phase always returns, with no frame sent and the
  queue empty.
\<close>

theorem skipped_entries:
  assumes "skipped entry" and "list_all skipped bad"
  shows "fst (priv_write (s\<lparr>queue := pre @ entry # post\<rparr>)) =
         fst (priv_write (s\<lparr>queue := pre @ post\<rparr>)) \<and>
       trace (snd (priv_write (s\<lparr>queue := pre @ entry # post\<rparr>))) =
         trace (snd (priv_write (s\<lparr>queue := pre @ post\<rparr>))) \<and>
       reader (snd (priv_write (s\<lparr>queue := pre @ entry # post\<rparr>))) =
         reader (snd (priv_write (s\<lparr>queue := pre @ post\<rparr>))) \<and>
       queue (snd (priv_write (s\<lparr>queue := pre @ entry # post\<rparr>))) =
         (if isl (fst (priv_write (s\<lparr>queue := pre @ post\<rparr>)))
          then pre @ entry # post else []) \<and>
       priv_write (t\<lparr>queue := bad\<rparr>) = (Inr (), t\<lparr>queue := []\<rparr>)"
proof -
  have "write_loop (pre @ entry # post) s = write_loop (pre @ post) s"
    using assms(1) by (rule write_loop_skipped)
  moreover have "write_loop bad t = (Inr (), t)"
    using assms(2) by (rule write_loop_all_skipped)
  ultimately show ?thesis
    by (simp add: priv_write_queue split: prod.splits sum.splits)
qed

theorem skipped_entries_witness:
  "skipped (PInt 6, PNone) \<and> list_all skipped [(PStr ''5'', PInt 1), (PInt 6, PNone)] \<and>
   fst (priv_write (init\<lparr>reader := Some [0, 0, 11, 186, 0, 0, 0, 10], writer := Some (),
       queue := [(PInt 5, PInt 10), (PInt 6, PNone)]\<rparr>)) = Inr () \<and>
   trace (snd (priv_write (init\<lparr>reader := Some [0, 0, 11, 186, 0, 0, 0, 10], writer := Some (),
       queue := [(PInt 5, PInt 10), (PInt 6, PNone)]\<rparr>))) =
     [Wrote [0, 0, 11, 186, 0, 0, 0, 5, 0, 0, 0, 10], Received [0, 0, 11, 186],
      Received [0, 0, 0, 10]] \<and>
   reader (snd (priv_write (init\<lparr>reader := Some [0, 0, 11, 186, 0, 0, 0, 10], writer := Some (),
       queue := [(PInt 5, PInt 10), (PInt 6, PNone)]\<rparr>))) = Some [] \<and>
   queue (snd (priv_write (init\<lparr>reader := Some [0, 0, 11, 186, 0, 0, 0, 10], writer := Some (),
       queue := [(PInt 5, PInt 10), (PInt 6, PNone)]\<rparr>))) = [] \<and>
   priv_write (init\<lparr>queue := [(PStr ''5'', PInt 1), (PInt 6, PNone)]\<rparr>) = (Inr (), init)"
proof -
  let ?s = "init\<lparr>reader := Some [0, 0, 11, 186, 0, 0, 0, 10], writer := Some ()\<rparr>"
  have a: "skipped (PInt 6, PNone)"
    and c: "list_all skipped [(PStr ''5'', PInt 1), (PInt 6, PNone)]"
    by simp_all
  have d: "priv_write (?s\<lparr>queue := [(PInt 5, PInt 10)]\<rparr>) =
     (Inr (), ?s\<lparr>reader := Some [], queue := [],
        trace := [Wrote [0, 0, 11, 186, 0, 0, 0, 5, 0, 0, 0, 10],
          Received [0, 0, 11, 186], Received [0, 0, 0, 10]]\<rparr>)"
    by (simp add: priv_write_def send_ints_def recv_int_def readexactly_def int32_def init_def
        be_bytes_examples)
  have e: "init\<lparr>queue := []\<rparr> = init"
    by (simp add: init_def)
  show ?thesis
    using skipped_entries [OF a c, where s = ?s and t = init
        and pre = "[(PInt 5, PInt 10)]" and post = "[]"] d e
    by simp
qed

subsection \<open>The queue after the phase\<close>

text \<open>
  Claim C5 says that the queue is empty after every write phase, also when a send or a
  read-back failed. The queue is cleared by the statement after the loop, which an
  exception in the loop does not reach: when the stream ends before the answer to the
  frame of the entry \<open>(5, 10)\<close>, \<open>IncompleteReadError\<close> leaves \<open>_write\<close> and the entry
  is still in the queue.
\<close>

theorem queue_kept_counterexample:
  "priv_write (init\<lparr>reader := Some [], writer := Some (), queue := [(PInt 5, PInt 10)]\<rparr>) =
     (Inl IncompleteReadError, init\<lparr>reader := Some [], writer := Some (),
        queue := [(PInt 5, PInt 10)],
        trace := [Wrote [0, 0, 11, 186, 0, 0, 0, 5, 0, 0, 0, 10]]\<rparr>)"
  by (simp add: priv_write_def send_ints_def recv_int_def readexactly_def int32_def init_def
      be_bytes_examples)

text \<open>
  Claim C5, amended. After a write phase that returns, the queue is empty. When a send
  or a read-back of the phase raises, the exception leaves the phase and the queue is
  what it was before the phase.
\<close>

theorem queue_after_write_phase:
  "queue (snd (priv_write s)) = (case fst (priv_write s) of Inl e \<Rightarrow> queue s | Inr u \<Rightarrow> [])"
  by (rule queue_priv_write)

section \<open>The order of the steps\<close>

lemma steps_append: "steps (xs @ ys) = steps xs @ steps ys"
  by (simp add: steps_def)

lemma steps_recv_int: "recv_int s = (r, s') \<Longrightarrow> steps (trace s') = steps (trace s)"
  by (auto simp add: recv_int_def readexactly_def Let_def steps_def
      split: option.splits sum.splits if_splits)

lemma steps_read_loop: "read_loop n data s = (r, s') \<Longrightarrow> steps (trace s') = steps (trace s)"
proof (induction n arbitrary: data s)
  case 0
  then show ?case by simp
next
  case (Suc n)
  obtain r1 s1 where a: "recv_int s = (r1, s1)"
    by (cases "recv_int s")
  have b: "steps (trace s1) = steps (trace s)"
    using a by (rule steps_recv_int)
  show ?case
  proof (cases r1)
    case (Inr val)
    with Suc.prems a have "read_loop n (data @ [val]) s1 = (r, s')"
      by simp
    then show ?thesis
      using Suc.IH b by simp
  next
    case (Inl e)
    show ?thesis
    proof (cases "e = StructError")
      case True
      with Suc.prems a Inl have "read_loop n data s1 = (r, s')"
        by simp
      then show ?thesis
        using Suc.IH b by simp
    next
      case False
      with Suc.prems a Inl have "s' = s1"
        by (cases e) simp_all
      with b show ?thesis by simp
    qed
  qed
qed

lemma steps_send_ints:
  "send_ints ints s = (r, s') \<Longrightarrow>
   steps (trace s') = steps (trace s) @
     (case r of Inl e \<Rightarrow> [] | Inr u \<Rightarrow> (case pack_ints ints of Inl e \<Rightarrow> [] | Inr data \<Rightarrow> [Wrote data]))"
  by (auto simp add: send_ints_def steps_def split: option.splits sum.splits)

lemma steps_read_parameters:
  assumes "read_parameters s = (r, s')"
  shows "\<exists>zs. steps (trace s') = steps (trace s) @ zs \<and>
     (case r of
        Inl e \<Rightarrow> zs = [] \<or> zs = [Wrote (be_bytes 3003 @ be_bytes 0)]
      | Inr u \<Rightarrow> (\<exists>data. zs = [Wrote (be_bytes 3003 @ be_bytes 0), Parameters_parse data]))"
proof -
  obtain r1 s1 where 1: "send_ints [PInt 3003, PInt 0] s = (r1, s1)"
    by (cases "send_ints [PInt 3003, PInt 0] s")
  obtain r2 s2 where 2: "recv_int s1 = (r2, s2)"
    by (cases "recv_int s1")
  obtain r3 s3 where 3: "recv_int s2 = (r3, s3)"
    by (cases "recv_int s2")
  have t1: "steps (trace s1) = steps (trace s) @
      (case r1 of Inl e \<Rightarrow> [] | Inr u \<Rightarrow> [Wrote (be_bytes 3003 @ be_bytes 0)])"
    using steps_send_ints [OF 1, unfolded pack_3003] by (cases r1) simp_all
  have t2: "steps (trace s2) = steps (trace s1)"
    using 2 by (rule steps_recv_int)
  have t3: "steps (trace s3) = steps (trace s2)"
    using 3 by (rule steps_recv_int)
  show ?thesis
  proof (cases r1)
    case (Inl e)
    with assms 1 t1 show ?thesis
      by (auto simp add: read_parameters_def)
  next
    case r1: (Inr u)
    show ?thesis
    proof (cases r2)
      case (Inl e)
      with assms 1 2 r1 t1 t2 show ?thesis
        by (auto simp add: read_parameters_def)
    next
      case r2: (Inr cmd)
      show ?thesis
      proof (cases r3)
        case (Inl e)
        with assms 1 2 3 r1 r2 t1 t2 t3 show ?thesis
          by (auto simp add: read_parameters_def)
      next
        case r3: (Inr len)
        obtain r4 s4 where 4: "read_loop (nat len) [] s3 = (r4, s4)"
          by (cases "read_loop (nat len) [] s3")
        have t4: "steps (trace s4) = steps (trace s3)"
          using 4 by (rule steps_read_loop)
        from assms 1 2 3 4 r1 r2 r3 t1 t2 t3 t4 show ?thesis
          by (cases r4) (auto simp add: read_parameters_def steps_def)
      qed
    qed
  qed
qed

lemma steps_read_calculations:
  assumes "read_calculations s = (r, s')"
  shows "\<exists>zs. steps (trace s') = steps (trace s) @ zs \<and>
     (case r of
        Inl e \<Rightarrow> zs = [] \<or> zs = [Wrote (be_bytes 3004 @ be_bytes 0)]
      | Inr u \<Rightarrow> (\<exists>data. zs = [Wrote (be_bytes 3004 @ be_bytes 0), Calculations_parse data]))"
proof -
  obtain r1 s1 where 1: "send_ints [PInt 3004, PInt 0] s = (r1, s1)"
    by (cases "send_ints [PInt 3004, PInt 0] s")
  obtain r2 s2 where 2: "recv_int s1 = (r2, s2)"
    by (cases "recv_int s1")
  obtain r3 s3 where 3: "recv_int s2 = (r3, s3)"
    by (cases "recv_int s2")
  obtain r4 s4 where 4: "recv_int s3 = (r4, s4)"
    by (cases "recv_int s3")
  have t1: "steps (trace s1) = steps (trace s) @
      (case r1 of Inl e \<Rightarrow> [] | Inr u \<Rightarrow> [Wrote (be_bytes 3004 @ be_bytes 0)])"
    using steps_send_ints [OF 1, unfolded pack_3004] by (cases r1) simp_all
  have t2: "steps (trace s2) = steps (trace s1)"
    using 2 by (rule steps_recv_int)
  have t3: "steps (trace s3) = steps (trace s2)"
    using 3 by (rule steps_recv_int)
  have t4: "steps (trace s4) = steps (trace s3)"
    using 4 by (rule steps_recv_int)
  show ?thesis
  proof (cases r1)
    case (Inl e)
    with assms 1 t1 show ?thesis
      by (auto simp add: read_calculations_def)
  next
    case r1: (Inr u)
    show ?thesis
    proof (cases r2)
      case (Inl e)
      with assms 1 2 r1 t1 t2 show ?thesis
        by (auto simp add: read_calculations_def)
    next
      case r2: (Inr cmd)
      show ?thesis
      proof (cases r3)
        case (Inl e)
        with assms 1 2 3 r1 r2 t1 t2 t3 show ?thesis
          by (auto simp add: read_calculations_def)
      next
        case r3: (Inr stat)
        show ?thesis
        proof (cases r4)
          case (Inl e)
          with assms 1 2 3 4 r1 r2 r3 t1 t2 t3 t4 show ?thesis
            by (auto simp add: read_calculations_def)
        next
          case r4: (Inr len)
          obtain r5 s5 where 5: "read_loop (nat len) [] s4 = (r5, s5)"
            by (cases "read_loop (nat len) [] s4")
          have t5: "steps (trace s5) = steps (trace s4)"
            using 5 by (rule steps_read_loop)
          from assms 1 2 3 4 5 r1 r2 r3 r4 t1 t2 t3 t4 t5 show ?thesis
            by (cases r5) (auto simp add: read_calculations_def steps_def)
        qed
      qed
    qed
  qed
qed

lemma steps_priv_read:
  assumes "priv_read s = (r, s')"
  shows "\<exists>zs pdata cdata. steps (trace s') = steps (trace s) @ zs \<and>
     prefix zs [Wrote (be_bytes 3003 @ be_bytes 0), Parameters_parse pdata,
       Wrote (be_bytes 3004 @ be_bytes 0), Calculations_parse cdata] \<and>
     (case r of Inl e \<Rightarrow> length zs < 4 | Inr u \<Rightarrow> length zs = 4)"
proof -
  obtain r1 s1 where 1: "read_parameters s = (r1, s1)"
    by (cases "read_parameters s")
  from steps_read_parameters [OF 1] obtain zs1 where
    z1: "steps (trace s1) = steps (trace s) @ zs1"
    and c1: "case r1 of
        Inl e \<Rightarrow> zs1 = [] \<or> zs1 = [Wrote (be_bytes 3003 @ be_bytes 0)]
      | Inr u \<Rightarrow> (\<exists>data. zs1 = [Wrote (be_bytes 3003 @ be_bytes 0), Parameters_parse data])"
    by blast
  show ?thesis
  proof (cases r1)
    case (Inl e)
    with assms 1 have "r = Inl e" "s' = s1"
      by (simp_all add: priv_read_def)
    with z1 c1 Inl show ?thesis
      by (auto simp add: prefix_def)
  next
    case (Inr u)
    with c1 obtain pdata where
      p: "zs1 = [Wrote (be_bytes 3003 @ be_bytes 0), Parameters_parse pdata]"
      by auto
    from assms 1 Inr have 2: "read_calculations s1 = (r, s')"
      by (simp add: priv_read_def)
    from steps_read_calculations [OF 2] obtain zs2 where
      z2: "steps (trace s') = steps (trace s1) @ zs2"
      and c2: "case r of
        Inl e \<Rightarrow> zs2 = [] \<or> zs2 = [Wrote (be_bytes 3004 @ be_bytes 0)]
      | Inr u \<Rightarrow> (\<exists>data. zs2 = [Wrote (be_bytes 3004 @ be_bytes 0), Calculations_parse data])"
      by blast
    from z1 z2 c2 p show ?thesis
      by (cases r) (auto simp add: prefix_def)
  qed
qed

lemma command_of_be_bytes: "command_of (Wrote (be_bytes w @ rest)) = Some (sint w)"
  by (simp add: length_be_bytes unpack_be_bytes)

lemma frame_of_command: "frame_of entry = Inr f \<Longrightarrow> command_of (Wrote f) = Some 3002"
proof -
  assume a: "frame_of entry = Inr f"
  obtain index "value" where entry: "entry = (index, value)"
    by (cases entry)
  have "pack_i (PInt 3002) = Inr (be_bytes 3002)"
    by (simp add: int32_def)
  with a entry obtain rest where "f = be_bytes 3002 @ rest"
    by (auto split: sum.splits)
  then show ?thesis
    using command_of_be_bytes [of 3002 rest] by simp
qed

lemma send_ints_packed: "send_ints ints s = (Inr u, s') \<Longrightarrow> \<exists>data. pack_ints ints = Inr data"
  by (auto simp add: send_ints_def split: sum.splits option.splits)

lemma steps_write_loop:
  "write_loop q s = (r, s') \<Longrightarrow>
   \<exists>fs. steps (trace s') = steps (trace s) @ map Wrote fs \<and>
     prefix (map Inr fs) (map frame_of (filter (\<lambda>e. \<not> skipped e) q)) \<and>
     (isl r \<or> map Inr fs = map frame_of (filter (\<lambda>e. \<not> skipped e) q))"
proof (induction q arbitrary: s)
  case Nil
  then show ?case by auto
next
  case (Cons entry items)
  obtain index "value" where entry: "entry = (index, value)"
    by (cases entry)
  show ?case
  proof (cases "skipped entry")
    case True
    with Cons.prems entry have "write_loop items s = (r, s')"
      by simp
    from Cons.IH [OF this] True show ?thesis
      by simp
  next
    case False
    then have ok: "\<not> (\<not> isinstance_int index \<or> \<not> isinstance_int value)"
      by (simp add: entry)
    obtain r1 s1 where 1: "send_ints [PInt 3002, index, value] s = (r1, s1)"
      by (cases "send_ints [PInt 3002, index, value] s")
    show ?thesis
    proof (cases r1)
      case (Inl e)
      with Cons.prems entry ok 1 have "r = Inl e" "s' = s1"
        by simp_all
      moreover have "steps (trace s1) = steps (trace s)"
        using steps_send_ints [OF 1] Inl by simp
      ultimately show ?thesis
        by (intro exI [of _ "[]"]) simp
    next
      case r1: (Inr u)
      from send_ints_packed [OF 1 [unfolded r1]] obtain f where f: "frame_of entry = Inr f"
        by (auto simp add: entry)
      have t1: "steps (trace s1) = steps (trace s) @ [Wrote f]"
        using steps_send_ints [OF 1] r1 f by (simp add: entry)
      obtain r2 s2 where 2: "recv_int s1 = (r2, s2)"
        by (cases "recv_int s1")
      obtain r3 s3 where 3: "recv_int s2 = (r3, s3)"
        by (cases "recv_int s2")
      have t2: "steps (trace s2) = steps (trace s1)"
        using 2 by (rule steps_recv_int)
      have t3: "steps (trace s3) = steps (trace s2)"
        using 3 by (rule steps_recv_int)
      show ?thesis
      proof (cases r2)
        case (Inl e)
        with Cons.prems entry ok 1 2 r1 have "r = Inl e" "s' = s2"
          by simp_all
        with t1 t2 f False show ?thesis
          by (intro exI [of _ "[f]"]) simp
      next
        case r2: (Inr cmd)
        show ?thesis
        proof (cases r3)
          case (Inl e)
          with Cons.prems entry ok 1 2 3 r1 r2 have "r = Inl e" "s' = s3"
            by simp_all
          with t1 t2 t3 f False show ?thesis
            by (intro exI [of _ "[f]"]) simp
        next
          case r3: (Inr val)
          with Cons.prems entry ok 1 2 3 r1 r2 have "write_loop items s3 = (r, s')"
            by simp
          from Cons.IH [OF this] obtain fs where
            a: "steps (trace s') = steps (trace s3) @ map Wrote fs"
            and b: "prefix (map Inr fs) (map frame_of (filter (\<lambda>e. \<not> skipped e) items))"
            and c: "isl r \<or> map Inr fs = map frame_of (filter (\<lambda>e. \<not> skipped e) items)"
            by blast
          from a b c t1 t2 t3 f False show ?thesis
            by (intro exI [of _ "f # fs"]) auto
        qed
      qed
    qed
  qed
qed

lemma prefix_frames_command:
  assumes "prefix (map Inr fs) (map frame_of entries)"
  shows "list_all (\<lambda>f. command_of (Wrote f) = Some 3002) fs"
proof -
  from assms have sub: "set (map Inr fs) \<subseteq> set (map frame_of entries)"
    by (rule set_mono_prefix)
  have "command_of (Wrote f) = Some 3002" if "f \<in> set fs" for f
  proof -
    from that have "Inr f \<in> set (map Inr fs)"
      by simp
    with sub have "Inr f \<in> set (map frame_of entries)"
      by (rule subsetD)
    then obtain entry where "frame_of entry = Inr f"
      by (auto simp add: image_iff)
    then show ?thesis
      by (rule frame_of_command)
  qed
  then show ?thesis
    by (simp add: list_all_iff)
qed

lemma steps_priv_write:
  assumes "priv_write s = (r, s')"
  shows "\<exists>fs. steps (trace s') = steps (trace s) @ map Wrote fs \<and>
     prefix (map Inr fs) (map frame_of (filter (\<lambda>e. \<not> skipped e) (queue s))) \<and>
     (isl r \<or> map Inr fs = map frame_of (filter (\<lambda>e. \<not> skipped e) (queue s)))"
proof -
  obtain r1 s1 where 1: "write_loop (queue s) s = (r1, s1)"
    by (cases "write_loop (queue s) s")
  have "r = r1 \<and> trace s' = trace s1"
    using assms 1 by (cases r1) (auto simp add: priv_write_def)
  with steps_write_loop [OF 1] show ?thesis
    by simp
qed

lemma read_steps_command:
  assumes "prefix zs [Wrote (be_bytes 3003 @ be_bytes 0), Parameters_parse pdata,
      Wrote (be_bytes 3004 @ be_bytes 0), Calculations_parse cdata]"
  shows "list_all (\<lambda>e. command_of e \<noteq> Some 3002) zs"
proof -
  have "command_of e \<noteq> Some 3002" if "e \<in> set zs" for e
  proof -
    from assms have "set zs \<subseteq> set [Wrote (be_bytes 3003 @ be_bytes 0), Parameters_parse pdata,
        Wrote (be_bytes 3004 @ be_bytes 0), Calculations_parse cdata]"
      by (rule set_mono_prefix)
    with that have "e \<in> set [Wrote (be_bytes 3003 @ be_bytes 0), Parameters_parse pdata,
        Wrote (be_bytes 3004 @ be_bytes 0), Calculations_parse cdata]"
      by (rule rev_subsetD)
    then consider "e = Wrote (be_bytes 3003 @ be_bytes 0)" | "e = Parameters_parse pdata"
      | "e = Wrote (be_bytes 3004 @ be_bytes 0)" | "e = Calculations_parse cdata"
      by auto
    then show ?thesis
      by cases (simp_all add: command_of_be_bytes del: command_of.simps(1))
  qed
  then show ?thesis
    by (simp add: list_all_iff)
qed

subsection \<open>Parameters before calculations\<close>

text \<open>
  Claim C7. A read phase on an open session, to which the controller answers in full,
  sends \<open>(3003, 0)\<close>, takes the echo, the length and the values and calls the parser
  of the parameters with the values; only then it sends \<open>(3004, 0)\<close>, takes the echo,
  the status word, the length and the values and calls the parser of the calculations
  with these. On any session, whatever fails, what a read phase does besides receiving
  is an initial part of: the frame \<open>(3003, 0)\<close>, the call of the parameters parser,
  the frame \<open>(3004, 0)\<close>, the call of the calculations parser. So the parameters are
  always read before the calculations.
\<close>

theorem read_phase_order:
  assumes "writer s = Some u"
    and "reader s = Some (be_bytes e1 @ be_bytes l1 @ concat (map be_bytes ps) @
           be_bytes e2 @ be_bytes st @ be_bytes l2 @ concat (map be_bytes cs) @ rest)"
    and "nat (sint l1) = length ps" and "nat (sint l2) = length cs"
  shows "priv_read s =
       (Inr (), s\<lparr>reader := Some rest,
          trace := trace s @
            [Wrote (be_bytes 3003 @ be_bytes 0), Received (be_bytes e1), Received (be_bytes l1)] @
            map (\<lambda>w. Received (be_bytes w)) ps @
            [Parameters_parse (map sint ps),
             Wrote (be_bytes 3004 @ be_bytes 0), Received (be_bytes e2), Received (be_bytes st),
             Received (be_bytes l2)] @
            map (\<lambda>w. Received (be_bytes w)) cs @
            [Calculations_parse (map sint cs)]\<rparr>) \<and>
     (\<exists>zs pdata cdata. steps (trace (snd (priv_read t))) = steps (trace t) @ zs \<and>
        prefix zs [Wrote (be_bytes 3003 @ be_bytes 0), Parameters_parse pdata,
          Wrote (be_bytes 3004 @ be_bytes 0), Calculations_parse cdata])"
proof
  let ?mid = "be_bytes e2 @ be_bytes st @ be_bytes l2 @ concat (map be_bytes cs) @ rest"
  let ?s1 = "s\<lparr>reader := Some ?mid,
        trace := trace s @ [Wrote (be_bytes 3003 @ be_bytes 0), Received (be_bytes e1),
          Received (be_bytes l1)] @ map (\<lambda>w. Received (be_bytes w)) ps @
          [Parameters_parse (map sint ps)]\<rparr>"
  have 1: "read_parameters s = (Inr (), ?s1)"
    using assms(1) assms(2) assms(3) by (rule read_parameters_complete)
  have 2: "read_calculations ?s1 =
     (Inr (), ?s1\<lparr>reader := Some rest,
        trace := trace ?s1 @ [Wrote (be_bytes 3004 @ be_bytes 0), Received (be_bytes e2),
          Received (be_bytes st), Received (be_bytes l2)] @ map (\<lambda>w. Received (be_bytes w)) cs @
          [Calculations_parse (map sint cs)]\<rparr>)"
    using assms(1) assms(4) by (intro read_calculations_complete [where u = u]) simp_all
  show "priv_read s =
       (Inr (), s\<lparr>reader := Some rest,
          trace := trace s @
            [Wrote (be_bytes 3003 @ be_bytes 0), Received (be_bytes e1), Received (be_bytes l1)] @
            map (\<lambda>w. Received (be_bytes w)) ps @
            [Parameters_parse (map sint ps),
             Wrote (be_bytes 3004 @ be_bytes 0), Received (be_bytes e2), Received (be_bytes st),
             Received (be_bytes l2)] @
            map (\<lambda>w. Received (be_bytes w)) cs @
            [Calculations_parse (map sint cs)]\<rparr>)"
    by (simp only: priv_read_def 1 2 prod.case sum.case) simp
next
  obtain r s' where "priv_read t = (r, s')"
    by (cases "priv_read t")
  from steps_priv_read [OF this] this
  show "\<exists>zs pdata cdata. steps (trace (snd (priv_read t))) = steps (trace t) @ zs \<and>
        prefix zs [Wrote (be_bytes 3003 @ be_bytes 0), Parameters_parse pdata,
          Wrote (be_bytes 3004 @ be_bytes 0), Calculations_parse cdata]"
    by auto
qed

theorem read_phase_order_witness:
  "priv_read (init\<lparr>reader := Some [0, 0, 0, 0, 0, 0, 0, 2, 0, 0, 0, 42, 0, 0, 0, 43,
        0, 0, 0, 0, 0, 0, 0, 0, 0, 0, 0, 1, 0, 0, 0, 99], writer := Some ()\<rparr>) =
     (Inr (), init\<lparr>reader := Some [], writer := Some (),
        trace := [Wrote [0, 0, 11, 187, 0, 0, 0, 0], Received [0, 0, 0, 0], Received [0, 0, 0, 2],
          Received [0, 0, 0, 42], Received [0, 0, 0, 43], Parameters_parse [42, 43],
          Wrote [0, 0, 11, 188, 0, 0, 0, 0], Received [0, 0, 0, 0], Received [0, 0, 0, 0],
          Received [0, 0, 0, 1], Received [0, 0, 0, 99], Calculations_parse [99]]\<rparr>)"
  using read_phase_order [of
      "init\<lparr>reader := Some [0, 0, 0, 0, 0, 0, 0, 2, 0, 0, 0, 42, 0, 0, 0, 43,
        0, 0, 0, 0, 0, 0, 0, 0, 0, 0, 0, 1, 0, 0, 0, 99], writer := Some ()\<rparr>"
      "()" 0 2 "[42, 43]" 0 0 1 "[99]" "[]" init]
  by (simp add: be_bytes_examples init_def)

subsection \<open>Writing before reading\<close>

text \<open>
  Claim C6. In a read-only cycle no frame with command 3002 is written: the cycle does
  an initial part of the read phase and nothing else. In a write-then-read cycle the
  frames written first all have command 3002 and are, in the order of the queue, the
  frames of the entries that are not passed over. Either the write phase raises and the
  cycle ends there, or all these frames have been written, the session then sleeps for
  \<open>WAIT_TIME_AFTER_PARAMETER_WRITE\<close>, and only after that comes the read phase with the
  frame \<open>(3003, 0)\<close>, in which no frame has command 3002.
\<close>

theorem cycle_order:
  "(\<exists>zs pdata cdata.
      steps (trace (snd (read s))) = steps (trace s) @ zs \<and>
      prefix zs [Wrote (be_bytes 3003 @ be_bytes 0), Parameters_parse pdata,
        Wrote (be_bytes 3004 @ be_bytes 0), Calculations_parse cdata] \<and>
      list_all (\<lambda>e. command_of e \<noteq> Some 3002) zs) \<and>
   (\<exists>fs zs.
      steps (trace (snd (write' t))) = steps (trace t) @ map Wrote fs @ zs \<and>
      list_all (\<lambda>f. command_of (Wrote f) = Some 3002) fs \<and>
      prefix (map Inr fs) (map frame_of (filter (\<lambda>e. \<not> skipped e) (queue t))) \<and>
      (zs = [] \<and> isl (fst (write' t)) \<or>
       map Inr fs = map frame_of (filter (\<lambda>e. \<not> skipped e) (queue t)) \<and>
       (\<exists>zs' pdata cdata. zs = Slept WAIT_TIME_AFTER_PARAMETER_WRITE # zs' \<and>
          prefix zs' [Wrote (be_bytes 3003 @ be_bytes 0), Parameters_parse pdata,
            Wrote (be_bytes 3004 @ be_bytes 0), Calculations_parse cdata] \<and>
          list_all (\<lambda>e. command_of e \<noteq> Some 3002) zs')))"
proof
  obtain r s' where a: "priv_read s = (r, s')"
    by (cases "priv_read s")
  from steps_priv_read [OF a] obtain zs pdata cdata where
    "steps (trace s') = steps (trace s) @ zs"
    and p: "prefix zs [Wrote (be_bytes 3003 @ be_bytes 0), Parameters_parse pdata,
        Wrote (be_bytes 3004 @ be_bytes 0), Calculations_parse cdata]"
    by blast
  moreover note read_steps_command [OF p]
  ultimately show "\<exists>zs pdata cdata.
      steps (trace (snd (read s))) = steps (trace s) @ zs \<and>
      prefix zs [Wrote (be_bytes 3003 @ be_bytes 0), Parameters_parse pdata,
        Wrote (be_bytes 3004 @ be_bytes 0), Calculations_parse cdata] \<and>
      list_all (\<lambda>e. command_of e \<noteq> Some 3002) zs"
    using a by (auto simp add: read_def read_after_write_def)
next
  let ?frames = "map frame_of (filter (\<lambda>e. \<not> skipped e) (queue t))"
  obtain r1 s1 where w: "priv_write t = (r1, s1)"
    by (cases "priv_write t")
  from steps_priv_write [OF w] obtain fs where
    t1: "steps (trace s1) = steps (trace t) @ map Wrote fs"
    and pre: "prefix (map Inr fs) ?frames"
    and all: "isl r1 \<or> map Inr fs = ?frames"
    by blast
  note cmd = prefix_frames_command [OF pre]
  show "\<exists>fs zs.
      steps (trace (snd (write' t))) = steps (trace t) @ map Wrote fs @ zs \<and>
      list_all (\<lambda>f. command_of (Wrote f) = Some 3002) fs \<and>
      prefix (map Inr fs) ?frames \<and>
      (zs = [] \<and> isl (fst (write' t)) \<or>
       map Inr fs = ?frames \<and>
       (\<exists>zs' pdata cdata. zs = Slept WAIT_TIME_AFTER_PARAMETER_WRITE # zs' \<and>
          prefix zs' [Wrote (be_bytes 3003 @ be_bytes 0), Parameters_parse pdata,
            Wrote (be_bytes 3004 @ be_bytes 0), Calculations_parse cdata] \<and>
          list_all (\<lambda>e. command_of e \<noteq> Some 3002) zs'))"
  proof (cases r1)
    case (Inl e)
    with w have "write' t = (Inl e, s1)"
      by (simp add: write'_def read_after_write_def)
    with t1 cmd pre show ?thesis
      by (intro exI [of _ fs] exI [of _ "[]"]) simp
  next
    case (Inr u)
    let ?s2 = "s1\<lparr>trace := trace s1 @ [Slept WAIT_TIME_AFTER_PARAMETER_WRITE]\<rparr>"
    obtain r s' where a: "priv_read ?s2 = (r, s')"
      by (cases "priv_read ?s2")
    from steps_priv_read [OF a] obtain zs' pdata cdata where
      t2: "steps (trace s') = steps (trace ?s2) @ zs'"
      and p: "prefix zs' [Wrote (be_bytes 3003 @ be_bytes 0), Parameters_parse pdata,
          Wrote (be_bytes 3004 @ be_bytes 0), Calculations_parse cdata]"
      by blast
    note c = read_steps_command [OF p]
    from w a Inr have "write' t = (r, s')"
      by (simp add: write'_def read_after_write_def)
    moreover have "steps (trace ?s2) = steps (trace t) @ map Wrote fs @
        [Slept WAIT_TIME_AFTER_PARAMETER_WRITE]"
      using t1 by (simp add: steps_append) (simp add: steps_def)
    moreover from all Inr have "map Inr fs = ?frames"
      by simp
    ultimately show ?thesis
      using t2 p c cmd pre
      by (intro exI [of _ fs] exI [of _ "Slept WAIT_TIME_AFTER_PARAMETER_WRITE # zs'"]) auto
  qed
qed

section \<open>Closing the session\<close>

text \<open>
  Claim C9 says that closing always clears both handles and that a send or a receive on
  a closed session fails with a \<open>NotConnected\<close> error. Neither holds. When the wait
  for the writer to close raises, \<open>__aexit__\<close> is left before the handles are cleared:
  the close fails and both handles stay set. And the code has no \<open>NotConnected\<close> error
  and no test of the handles: after a close that returned, the method lookup on \<open>None\<close>
  raises \<open>AttributeError\<close>, and \<open>_send_ints\<close> packs before it touches the writer, so
  a send of an integer that does not fit raises \<open>struct.error\<close>.
\<close>

theorem closed_session_counterexample:
  "aexit (Some OSError) (init\<lparr>reader := Some [0, 0, 0, 1], writer := Some ()\<rparr>) =
     (Inl OSError, init\<lparr>reader := Some [0, 0, 0, 1], writer := Some (), trace := [Closed]\<rparr>) \<and>
   recv_int (snd (aexit None (init\<lparr>reader := Some [0, 0, 0, 1], writer := Some ()\<rparr>))) =
     (Inl AttributeError, init\<lparr>trace := [Closed]\<rparr>) \<and>
   send_ints [PInt 3003, PInt 0]
       (snd (aexit None (init\<lparr>reader := Some [0, 0, 0, 1], writer := Some ()\<rparr>))) =
     (Inl AttributeError, init\<lparr>trace := [Closed]\<rparr>) \<and>
   send_ints [PInt 3002, PInt 1, PInt 2147483648]
       (snd (aexit None (init\<lparr>reader := Some [0, 0, 0, 1], writer := Some ()\<rparr>))) =
     (Inl StructError, init\<lparr>trace := [Closed]\<rparr>)"
  by (simp add: aexit_def recv_int_def send_ints_def int32_def init_def)

text \<open>
  Claim C9, amended. Closing a session with a writer clears both handles when the wait
  for the writer to close returns; when the wait raises, the exception leaves the close
  and both handles stay as they were. Closing a session without a writer (one that was
  closed, or never opened) always returns, awaits nothing and leaves both handles
  cleared. After a close that returned, a receive raises \<open>AttributeError\<close>, and a send
  raises \<open>struct.error\<close> when its integers do not pack and \<open>AttributeError\<close>
  otherwise; neither touches the session.
\<close>

theorem close_clears_handles:
  "aexit None s = (Inr (), snd (aexit None s)) \<and>
   reader (snd (aexit None s)) = None \<and> writer (snd (aexit None s)) = None \<and>
   aexit (Some e) s =
     (if writer s = None then (Inr (), s\<lparr>reader := None, writer := None\<rparr>)
      else (Inl e, s\<lparr>trace := trace s @ [Closed]\<rparr>)) \<and>
   aexit closing (snd (aexit None s)) = (Inr (), snd (aexit None s)) \<and>
   aexit closing init = (Inr (), init) \<and>
   recv_int (snd (aexit None s)) = (Inl AttributeError, snd (aexit None s)) \<and>
   send_ints ints (snd (aexit None s)) =
     (Inl (case pack_ints ints of Inl x \<Rightarrow> x | Inr data \<Rightarrow> AttributeError),
      snd (aexit None s))"
  by (simp add: aexit_def Let_def init_def recv_int_closed send_ints_closed split: option.splits)

section \<open>Round trip of the codec\<close>

text \<open>
  Claim C10. For every integer \<open>v\<close> of the signed 32-bit range, \<open>_recv_int\<close> on the
  four bytes that \<open>_send_ints\<close> writes for \<open>v\<close> returns \<open>v\<close> again, and
  \<open>_send_ints\<close> on \<open>n\<close> such integers writes one buffer of exactly \<open>4 * n\<close> bytes.
\<close>

theorem codec_roundtrip:
  assumes "writer s = Some ()" and "int32 v" and "list_all int32 vs"
  shows "(\<exists>data. send_ints [PInt v] s = (Inr (), s\<lparr>trace := trace s @ [Wrote data]\<rparr>) \<and>
            recv_int (r\<lparr>reader := Some data\<rparr>) =
              (Inr v, r\<lparr>reader := Some [], trace := trace r @ [Received data]\<rparr>)) \<and>
         (\<exists>buf. send_ints (map PInt vs) s = (Inr (), s\<lparr>trace := trace s @ [Wrote buf]\<rparr>) \<and>
            length buf = 4 * length vs)"
proof (intro conjI)
  let ?data = "be_bytes (word_of_int v)"
  have "pack_ints [PInt v] = Inr ?data"
    using assms(2) by simp
  then have "send_ints [PInt v] s = (Inr (), s\<lparr>trace := trace s @ [Wrote ?data]\<rparr>)"
    using assms(1) by (rule send_ints_open [rotated])
  moreover have "recv_int (r\<lparr>reader := Some ?data\<rparr>) =
      (Inr v, r\<lparr>reader := Some [], trace := trace r @ [Received ?data]\<rparr>)"
    using recv_int_be_bytes [of "r\<lparr>reader := Some ?data\<rparr>" "word_of_int v" "[]"]
      sint_word_of_int32 [OF assms(2)] by simp
  ultimately show "\<exists>data. send_ints [PInt v] s = (Inr (), s\<lparr>trace := trace s @ [Wrote data]\<rparr>) \<and>
            recv_int (r\<lparr>reader := Some data\<rparr>) =
              (Inr v, r\<lparr>reader := Some [], trace := trace r @ [Received data]\<rparr>)"
    by blast
next
  let ?buf = "concat (map (\<lambda>v. be_bytes (word_of_int v)) vs)"
  have p: "pack_ints (map PInt vs) = Inr ?buf"
    using assms(3) by (rule pack_ints_int32)
  then have "send_ints (map PInt vs) s = (Inr (), s\<lparr>trace := trace s @ [Wrote ?buf]\<rparr>)"
    using assms(1) by (rule send_ints_open [rotated])
  moreover have "length ?buf = 4 * length vs"
    using length_pack_ints [OF p] by simp
  ultimately show "\<exists>buf. send_ints (map PInt vs) s = (Inr (), s\<lparr>trace := trace s @ [Wrote buf]\<rparr>) \<and>
            length buf = 4 * length vs"
    by blast
qed

theorem codec_roundtrip_witness:
  "writer (init\<lparr>writer := Some ()\<rparr>) = Some () \<and> int32 (- 2) \<and> list_all int32 [3002, 5, - 1] \<and>
   (\<exists>data. send_ints [PInt (- 2)] (init\<lparr>writer := Some ()\<rparr>) =
        (Inr (), init\<lparr>writer := Some (), trace := [Wrote data]\<rparr>) \<and>
      recv_int (init\<lparr>reader := Some data\<rparr>) =
        (Inr (- 2), init\<lparr>reader := Some [], trace := [Received data]\<rparr>)) \<and>
   (\<exists>buf. send_ints (map PInt [3002, 5, - 1]) (init\<lparr>writer := Some ()\<rparr>) =
        (Inr (), init\<lparr>writer := Some (), trace := [Wrote buf]\<rparr>) \<and> length buf = 12)"
  using codec_roundtrip [of "init\<lparr>writer := Some ()\<rparr>" "- 2" "[3002, 5, - 1]" init]
  by (simp add: int32_def init_def)

end
